theory Spec2Isabelle
  imports Main
begin

section \<open>JavaScript primitives used by the hero carousel\<close>

text \<open>
  The numbers that \<^verbatim>\<open>Hero.jsx\<close> computes with are integer-valued JavaScript numbers:
  the carousel index, the constant \<^verbatim>\<open>totalVideos\<close> and the load counter. They are
  modelled as \<^typ>\<open>int\<close>.

  The operator \<^verbatim>\<open>%\<close> of JavaScript is the truncating remainder: the result has the sign of
  the dividend. For a zero divisor JavaScript yields \<^verbatim>\<open>NaN\<close>, which \<^typ>\<open>int\<close> has no value
  for; the component divides by \<^verbatim>\<open>totalVideos\<close> only, and every statement below that
  depends on a remainder assumes \<open>1 \<le> totalVideos\<close>.
\<close>

definition js_rem :: "int \<Rightarrow> int \<Rightarrow> int" where
  "js_rem a b = sgn a * (abs a mod abs b)"

text \<open>
  A template literal \<^verbatim>\<open>${index}\<close> converts the number to a string. For an integer of
  magnitude at most \<open>2\<^sup>5\<^sup>3 - 1\<close> (\<^verbatim>\<open>Number.MAX_SAFE_INTEGER\<close>) that is its decimal
  numeral, with a leading minus sign for a negative one, and this is what \<open>ToString\<close>
  below computes. Larger magnitudes are not exact integers in JavaScript and print
  otherwise (rounded digits, exponent notation from \<open>10\<^sup>2\<^sup>1\<close> on); what is stated below
  about the printed digits is stated for the safe range.
\<close>

definition MAX_SAFE_INTEGER :: int where
  "MAX_SAFE_INTEGER = 2 ^ 53 - 1"

definition digit_char :: "nat \<Rightarrow> char" where
  "digit_char d = ''0123456789'' ! (d mod 10)"

fun digits_of_nat :: "nat \<Rightarrow> string" where
  "digits_of_nat n =
     (if n < 10 then [digit_char n]
      else digits_of_nat (n div 10) @ [digit_char (n mod 10)])"

declare digits_of_nat.simps [simp del]

definition ToString :: "int \<Rightarrow> string" where
  "ToString i =
     (if i < 0 then CHR ''-'' # digits_of_nat (nat (- i)) else digits_of_nat (nat i))"

text \<open>
  Reading a numeral back. These functions are not code of the component: they say
  which integer a string denotes as a decimal numeral in canonical form (digits only, no
  leading zero except for zero itself, a minus sign only before a positive number), so that
  the strings \<open>ToString\<close> produces can be checked against the numbers they print.
\<close>

definition digit_value :: "char \<Rightarrow> nat" where
  "digit_value c = of_char c - 48"

definition is_digit :: "char \<Rightarrow> bool" where
  "is_digit c = (c \<in> set ''0123456789'')"

definition read_nat :: "string \<Rightarrow> nat option" where
  "read_nat str =
     (if str \<noteq> [] \<and> list_all is_digit str
         \<and> (hd str \<noteq> CHR ''0'' \<or> length str = 1)
      then Some (foldl (\<lambda>a c. 10 * a + digit_value c) 0 str)
      else None)"

definition read_int :: "string \<Rightarrow> int option" where
  "read_int str =
     (if str \<noteq> [] \<and> hd str = CHR ''-''
      then (case read_nat (tl str) of
              None \<Rightarrow> None
            | Some n \<Rightarrow> if n = 0 then None else Some (- int n))
      else map_option int (read_nat str))"

section \<open>The component state of \<^verbatim>\<open>Hero\<close>\<close>

text \<open>
  The four \<^verbatim>\<open>useState\<close> cells of the component (lines 17 to 22), with their initial values.
\<close>

record hero_state =
  currentIndex :: int
  hasClicked :: bool
  loading :: bool
  loadedVideos :: int

definition initial :: hero_state where
  "initial = \<lparr> currentIndex = 1, hasClicked = False, loading = True, loadedVideos = 0 \<rparr>"

text \<open>
  \<^verbatim>\<open>const totalVideos = 4\<close> (line 26). The handlers below take the constant as the
  parameter \<open>tv\<close>, so that properties can be stated for any number of clips.
\<close>

definition totalVideos :: int where
  "totalVideos = 4"

subsection \<open>Event handlers\<close>

text \<open>\<^verbatim>\<open>setLoadedVideos((prev) => prev + 1)\<close>\<close>

definition handleVideoLoad :: "hero_state \<Rightarrow> hero_state" where
  "handleVideoLoad s = s\<lparr> loadedVideos := loadedVideos s + 1 \<rparr>"

text \<open>
  \<^verbatim>\<open>setHasClicked(true); setCurrentIndex((prevIndex) => (prevIndex % totalVideos) + 1)\<close>
\<close>

definition handleMiniVdClick :: "int \<Rightarrow> hero_state \<Rightarrow> hero_state" where
  "handleMiniVdClick tv s =
     s\<lparr> hasClicked := True, currentIndex := js_rem (currentIndex s) tv + 1 \<rparr>"

text \<open>
  \<^verbatim>\<open>getVideoSrc = (index) => `videos/hero-${index}.mp4`\<close>. The function has no
  \<^verbatim>\<open>throw\<close>; its result is given the shape of a JavaScript completion (an error or a
  value) so that "does not fail" can be stated.
\<close>

datatype error = RangeError

definition getVideoSrc :: "int \<Rightarrow> error + string" where
  "getVideoSrc index = Inr (''videos/hero-'' @ ToString index @ ''.mp4'')"

subsection \<open>The loading effect\<close>

text \<open>
  \<^verbatim>\<open>useEffect(() => { if (loadedVideos === totalVideos - 1) setLoading(false) }, [loadedVideos])\<close>:
  the effect runs after the first render and after every render in which
  \<^verbatim>\<open>loadedVideos\<close> has changed.
\<close>

definition loadingEffect :: "int \<Rightarrow> hero_state \<Rightarrow> hero_state" where
  "loadingEffect tv s = (if loadedVideos s = tv - 1 then s\<lparr> loading := False \<rparr> else s)"

subsection \<open>What the component renders\<close>

text \<open>
  The \<^verbatim>\<open>src\<close> attributes of the three \<^verbatim>\<open><video>\<close> elements (lines 165, 180 and 191 to 193)
  and the condition of the loading screen (line 137).
\<close>

definition previewIndex :: "int \<Rightarrow> hero_state \<Rightarrow> int" where
  "previewIndex tv s = js_rem (currentIndex s) tv + 1"

definition previewSrc :: "int \<Rightarrow> hero_state \<Rightarrow> error + string" where
  "previewSrc tv s = getVideoSrc (previewIndex tv s)"

definition nextVideoSrc :: "hero_state \<Rightarrow> error + string" where
  "nextVideoSrc s = getVideoSrc (currentIndex s)"

definition backgroundIndex :: "int \<Rightarrow> hero_state \<Rightarrow> int" where
  "backgroundIndex tv s = (if currentIndex s = tv - 1 then 1 else currentIndex s)"

definition backgroundSrc :: "int \<Rightarrow> hero_state \<Rightarrow> error + string" where
  "backgroundSrc tv s = getVideoSrc (backgroundIndex tv s)"

definition loadingScreenShown :: "hero_state \<Rightarrow> bool" where
  "loadingScreenShown s = loading s"

subsection \<open>Runs of the component\<close>

text \<open>
  Mounting renders the initial state and then runs the loading effect once. Afterwards
  three things happen to the component:
  \<^item> a \<^verbatim>\<open>loadeddata\<close> event of one of the three videos (\<^verbatim>\<open>onLoadedData={handleVideoLoad}\<close>),
    which only queues the update \<^verbatim>\<open>prev => prev + 1\<close>;
  \<^item> a click on the preview (\<^verbatim>\<open>onClick={handleMiniVdClick}\<close>), which queues the two updates
    of the handler;
  \<^item> a re-render, which applies the queued updates and afterwards runs the loading effect.
  React (18, with automatic batching) decides when to re-render, and several events may be
  handled before it does: the loading effect then sees the counter after all of them.

  The state record holds each cell with the queued updates applied, that is, the value the
  next re-render will compute. Nothing but the loading effect reads \<^verbatim>\<open>loadedVideos\<close>, so
  the effect, run at \<open>Render\<close>, tests exactly the value React renders with. The effect is
  run at every \<open>Render\<close>; React skips it when \<^verbatim>\<open>loadedVideos\<close> is the same as at the
  previous render, where the same test has already been made (see \<open>loadingEffect_rerun\<close>).
\<close>

datatype event = VideoLoaded | MiniVdClick | Render

definition mount :: "int \<Rightarrow> hero_state" where
  "mount tv = loadingEffect tv initial"

fun step :: "int \<Rightarrow> hero_state \<Rightarrow> event \<Rightarrow> hero_state" where
  "step tv s VideoLoaded = handleVideoLoad s"
| "step tv s MiniVdClick = handleMiniVdClick tv s"
| "step tv s Render = loadingEffect tv s"

fun run :: "int \<Rightarrow> hero_state \<Rightarrow> event list \<Rightarrow> hero_state" where
  "run tv s [] = s"
| "run tv s (e # es) = run tv (step tv s e) es"

section \<open>Properties\<close>

subsection \<open>Remainders and decimal numerals\<close>

lemma js_rem_nonneg: "0 \<le> a \<Longrightarrow> 0 < b \<Longrightarrow> js_rem a b = a mod b"
  by (cases "a = 0") (simp_all add: js_rem_def)

lemma digit_char_inj: "a < 10 \<Longrightarrow> b < 10 \<Longrightarrow> digit_char a = digit_char b \<Longrightarrow> a = b"
proof -
  assume "a < 10" "b < 10" and eq: "digit_char a = digit_char b"
  then have "a \<in> {0,1,2,3,4,5,6,7,8,9}" "b \<in> {0,1,2,3,4,5,6,7,8,9}" by auto
  with eq show ?thesis by (auto simp: digit_char_def)
qed

lemma digit_char_not_minus: "digit_char d \<noteq> CHR ''-''"
proof -
  have "d mod 10 \<in> {0,1,2,3,4,5,6,7,8,9}" by (simp; presburger)
  then show ?thesis unfolding digit_char_def by auto
qed

lemma digits_of_nat_nonempty: "digits_of_nat n \<noteq> []" "[] \<noteq> digits_of_nat n"
  by (subst digits_of_nat.simps, simp)+

lemma digits_of_nat_hd: "hd (digits_of_nat n) \<noteq> CHR ''-''"
proof (induction n rule: digits_of_nat.induct)
  case (1 n)
  show ?case
  proof (cases "n < 10")
    case True
    then show ?thesis by (subst digits_of_nat.simps) (simp add: digit_char_not_minus)
  next
    case False
    with 1 show ?thesis
      by (subst digits_of_nat.simps) (simp add: digits_of_nat_nonempty)
  qed
qed

lemma digits_of_nat_inj: "digits_of_nat n = digits_of_nat m \<Longrightarrow> n = m"
proof (induction n arbitrary: m rule: digits_of_nat.induct)
  case (1 n)
  show ?case
  proof (cases "n < 10")
    case n: True
    show ?thesis
    proof (cases "m < 10")
      case True
      with n "1.prems" show ?thesis
        by (simp add: digits_of_nat.simps [of n] digits_of_nat.simps [of m] digit_char_inj)
    next
      case False
      with n "1.prems" show ?thesis
        by (simp add: digits_of_nat.simps [of n] digits_of_nat.simps [of m] digits_of_nat_nonempty)
    qed
  next
    case n: False
    show ?thesis
    proof (cases "m < 10")
      case True
      with n "1.prems" show ?thesis
        by (simp add: digits_of_nat.simps [of n] digits_of_nat.simps [of m] digits_of_nat_nonempty)
    next
      case False
      with n "1.prems" have a: "digits_of_nat (n div 10) = digits_of_nat (m div 10)"
        and b: "digit_char (n mod 10) = digit_char (m mod 10)"
        by (simp_all add: digits_of_nat.simps [of n] digits_of_nat.simps [of m])
      from "1.IH" [OF n a] have "n div 10 = m div 10" .
      moreover from b have "n mod 10 = m mod 10" by (intro digit_char_inj) simp_all
      ultimately show ?thesis by (metis div_mult_mod_eq)
    qed
  qed
qed

lemma ToString_inj: "ToString i = ToString j \<Longrightarrow> i = j"
proof -
  assume eq: "ToString i = ToString j"
  have neg: "digits_of_nat a \<noteq> CHR ''-'' # digits_of_nat b" for a b
    using digits_of_nat_hd [of a] by (cases "digits_of_nat a") auto
  show ?thesis
  proof (cases "i < 0"; cases "j < 0")
    assume "i < 0" "j < 0"
    with eq have "nat (- i) = nat (- j)" by (simp add: ToString_def digits_of_nat_inj)
    with \<open>i < 0\<close> \<open>j < 0\<close> show ?thesis by simp
  next
    assume "i < 0" "\<not> j < 0"
    with eq neg [of "nat j" "nat (- i)"] show ?thesis by (simp add: ToString_def)
  next
    assume "\<not> i < 0" "j < 0"
    with eq neg [of "nat i" "nat (- j)"] show ?thesis by (simp add: ToString_def)
  next
    assume "\<not> i < 0" "\<not> j < 0"
    with eq have "nat i = nat j" by (simp add: ToString_def digits_of_nat_inj)
    with \<open>\<not> i < 0\<close> \<open>\<not> j < 0\<close> show ?thesis by simp
  qed
qed

lemma getVideoSrc_inj: "getVideoSrc i = getVideoSrc j \<Longrightarrow> i = j"
  by (simp add: getVideoSrc_def ToString_inj)

subsection \<open>Reading the printed numerals back\<close>

lemma digit_char_is_digit: "is_digit (digit_char d)"
proof -
  have "d mod 10 \<in> {0,1,2,3,4,5,6,7,8,9}" by (simp; presburger)
  then show ?thesis unfolding digit_char_def is_digit_def by auto
qed

lemma digit_value_digit_char: "d < 10 \<Longrightarrow> digit_value (digit_char d) = d"
proof -
  assume "d < 10"
  then have "d \<in> {0,1,2,3,4,5,6,7,8,9}" by auto
  then show ?thesis by (auto simp: digit_char_def digit_value_def)
qed

lemma digit_char_digit_value:
  "is_digit c \<Longrightarrow> digit_value c < 10 \<and> digit_char (digit_value c) = c"
  by (auto simp: is_digit_def digit_char_def digit_value_def)

lemma digits_of_nat_all_digits: "list_all is_digit (digits_of_nat n)"
proof (induction n rule: digits_of_nat.induct)
  case (1 n)
  show ?case
  proof (cases "n < 10")
    case True
    then show ?thesis
      using digit_char_is_digit [of n] by (subst digits_of_nat.simps) simp
  next
    case False
    with 1 show ?thesis
      using digit_char_is_digit [of "n mod 10"] by (subst digits_of_nat.simps) simp
  qed
qed

lemma digits_of_nat_value: "foldl (\<lambda>a c. 10 * a + digit_value c) 0 (digits_of_nat n) = n"
proof (induction n rule: digits_of_nat.induct)
  case (1 n)
  show ?case
  proof (cases "n < 10")
    case True
    then show ?thesis
      by (subst digits_of_nat.simps) (simp add: digit_value_digit_char)
  next
    case False
    with 1 show ?thesis
      by (subst digits_of_nat.simps) (simp add: digit_value_digit_char)
  qed
qed

lemma digits_of_nat_leading_zero:
  "hd (digits_of_nat n) = CHR ''0'' \<Longrightarrow> n = 0"
proof (induction n rule: digits_of_nat.induct)
  case (1 n)
  show ?case
  proof (cases "n < 10")
    case True
    with "1.prems" have "digit_char n = CHR ''0''"
      by (simp add: digits_of_nat.simps [of n])
    then have "digit_value (digit_char n) = 0" by (simp add: digit_value_def)
    with True show ?thesis by (simp add: digit_value_digit_char)
  next
    case False
    with "1.prems" have "hd (digits_of_nat (n div 10)) = CHR ''0''"
      by (simp add: digits_of_nat.simps [of n] digits_of_nat_nonempty)
    from "1.IH" [OF False this] False show ?thesis by simp
  qed
qed

lemma read_nat_digits_of_nat: "read_nat (digits_of_nat n) = Some n"
proof -
  have "hd (digits_of_nat n) \<noteq> CHR ''0'' \<or> length (digits_of_nat n) = 1"
  proof (cases "n = 0")
    case True
    then show ?thesis by (simp add: digits_of_nat.simps [of 0])
  next
    case False
    with digits_of_nat_leading_zero [of n] show ?thesis by blast
  qed
  then show ?thesis
    by (simp add: read_nat_def digits_of_nat_nonempty digits_of_nat_all_digits
        digits_of_nat_value)
qed

lemma read_nat_unique: "read_nat str = Some n \<Longrightarrow> str = digits_of_nat n"
proof (induction str arbitrary: n rule: rev_induct)
  case Nil
  then show ?case by (simp add: read_nat_def)
next
  case (snoc c xs)
  let ?v = "foldl (\<lambda>a c. 10 * a + digit_value c) 0"
  from snoc.prems have all: "list_all is_digit xs"
    and c: "is_digit c"
    and lead: "hd (xs @ [c]) \<noteq> CHR ''0'' \<or> length (xs @ [c]) = 1"
    and n: "n = 10 * ?v xs + digit_value c"
    by (auto simp add: read_nat_def split: if_splits)
  from digit_char_digit_value [OF c] have d: "digit_value c < 10" "digit_char (digit_value c) = c"
    by simp_all
  show ?case
  proof (cases "xs = []")
    case True
    with n d show ?thesis by (subst digits_of_nat.simps) simp
  next
    case False
    with lead have hd: "hd xs \<noteq> CHR ''0''" by simp
    from False all hd have rd: "read_nat xs = Some (?v xs)"
      by (simp add: read_nat_def)
    from snoc.IH [OF rd] have xs: "xs = digits_of_nat (?v xs)" .
    have pos: "?v xs \<noteq> 0"
    proof
      assume "?v xs = 0"
      with xs have "xs = digits_of_nat 0" by simp
      then have "xs = ''0''" by (simp add: digits_of_nat.simps [of 0] digit_char_def)
      with hd show False by simp
    qed
    from n d pos have "\<not> n < 10" "n div 10 = ?v xs" "n mod 10 = digit_value c"
      by simp_all
    with xs d show ?thesis by (subst digits_of_nat.simps) simp
  qed
qed

lemma read_int_ToString: "read_int (ToString i) = Some i"
proof (cases "i < 0")
  case True
  then show ?thesis
    by (simp add: read_int_def ToString_def read_nat_digits_of_nat)
next
  case False
  have "digits_of_nat (nat i) \<noteq> []" "hd (digits_of_nat (nat i)) \<noteq> CHR ''-''"
    by (rule digits_of_nat_nonempty, rule digits_of_nat_hd)
  with False show ?thesis
    by (simp add: read_int_def ToString_def read_nat_digits_of_nat)
qed

lemma read_int_unique: "read_int str = Some i \<Longrightarrow> str = ToString i"
proof (cases "str \<noteq> [] \<and> hd str = CHR ''-''")
  case True
  assume r: "read_int str = Some i"
  with True obtain n where n: "read_nat (tl str) = Some n" "n \<noteq> 0" "i = - int n"
    by (auto simp add: read_int_def split: option.splits if_splits)
  from read_nat_unique [OF n(1)] have "tl str = digits_of_nat n" .
  with True have "str = CHR ''-'' # digits_of_nat n" by (cases str) auto
  with n show ?thesis by (simp add: ToString_def)
next
  case False
  assume r: "read_int str = Some i"
  with False obtain n where n: "read_nat str = Some n" "i = int n"
    by (auto simp add: read_int_def split: if_splits)
  from read_nat_unique [OF n(1)] n(2) show ?thesis by (simp add: ToString_def)
qed

lemma ToString_canonical: "(read_int str = Some i) = (str = ToString i)"
  using read_int_ToString read_int_unique by blast

subsection \<open>The index stays in range\<close>

lemma step_currentIndex_range:
  assumes "1 \<le> tv" "1 \<le> currentIndex s" "currentIndex s \<le> tv"
  shows "1 \<le> currentIndex (step tv s e) \<and> currentIndex (step tv s e) \<le> tv"
proof (cases e)
  case VideoLoaded
  with assms show ?thesis by (simp add: loadingEffect_def handleVideoLoad_def)
next
  case MiniVdClick
  from assms have "js_rem (currentIndex s) tv = currentIndex s mod tv"
    by (simp add: js_rem_nonneg)
  moreover from assms have "0 \<le> currentIndex s mod tv" "currentIndex s mod tv < tv"
    by simp_all
  ultimately show ?thesis using MiniVdClick by (simp add: handleMiniVdClick_def)
next
  case Render
  with assms show ?thesis by (simp add: loadingEffect_def)
qed

lemma run_currentIndex_range:
  assumes "1 \<le> tv" "1 \<le> currentIndex s" "currentIndex s \<le> tv"
  shows "1 \<le> currentIndex (run tv s es) \<and> currentIndex (run tv s es) \<le> tv"
  using assms
proof (induction es arbitrary: s)
  case Nil
  then show ?case by simp
next
  case (Cons e es)
  from step_currentIndex_range [OF Cons.prems, of e] Cons.IH [of "step tv s e"] Cons.prems(1)
  show ?case by simp
qed

lemma mount_currentIndex: "currentIndex (mount tv) = 1"
  by (simp add: mount_def loadingEffect_def initial_def)

lemma previewIndex_mod:
  assumes "1 \<le> tv" "1 \<le> currentIndex s" "currentIndex s \<le> tv"
  shows "previewIndex tv s = currentIndex s mod tv + 1"
  using assms by (simp add: previewIndex_def js_rem_nonneg)

lemma mod_succ_cases:
  assumes "1 \<le> tv" "1 \<le> (i::int)" "i \<le> tv"
  shows "i mod tv + 1 = (if i = tv then 1 else i + 1)"
  using assms by (simp add: mod_pos_pos_trivial)

subsection \<open>The index cycle\<close>

text \<open>
  Claim C3. For every \<open>currentIndex\<close> in \<open>[1, totalVideos]\<close>, one call of
  \<^verbatim>\<open>handleMiniVdClick\<close> sets \<open>hasClicked\<close> and sets \<open>currentIndex\<close> to the index the
  preview had before the call, which is \<open>(currentIndex mod totalVideos) + 1\<close>, the cyclic
  successor: the clip that was the preview is now the clip at \<open>currentIndex\<close>, and the new
  preview is the cyclic successor of the new index. The two loading cells are left
  alone. (The source of the third \<^verbatim>\<open><video>\<close> element at the new index follows line 192,
  as the conjunct on \<open>backgroundSrc\<close> records.)
\<close>

theorem advance_postcondition:
  assumes "1 \<le> currentIndex s" and "currentIndex s \<le> tv"
    and "s' = handleMiniVdClick tv s"
  shows "hasClicked s'
    \<and> currentIndex s' = previewIndex tv s
    \<and> currentIndex s' = currentIndex s mod tv + 1
    \<and> currentIndex s' = (if currentIndex s = tv then 1 else currentIndex s + 1)
    \<and> 1 \<le> currentIndex s' \<and> currentIndex s' \<le> tv
    \<and> nextVideoSrc s' = previewSrc tv s
    \<and> backgroundSrc tv s' = (if currentIndex s' = tv - 1 then getVideoSrc 1 else previewSrc tv s)
    \<and> previewIndex tv s' = currentIndex s' mod tv + 1
    \<and> previewIndex tv s' = (if currentIndex s' = tv then 1 else currentIndex s' + 1)
    \<and> loading s' = loading s \<and> loadedVideos s' = loadedVideos s"
proof -
  from assms have tv: "1 \<le> tv" by simp
  have ci: "currentIndex s' = previewIndex tv s"
    by (simp add: assms(3) handleMiniVdClick_def previewIndex_def)
  have pv: "previewIndex tv s = currentIndex s mod tv + 1"
    by (rule previewIndex_mod [OF tv assms(1,2)])
  have sc: "currentIndex s mod tv + 1 = (if currentIndex s = tv then 1 else currentIndex s + 1)"
    by (rule mod_succ_cases [OF tv assms(1,2)])
  from ci pv sc assms(1,2) have rng: "1 \<le> currentIndex s'" "currentIndex s' \<le> tv"
    by (simp_all split: if_splits)
  have pv': "previewIndex tv s' = currentIndex s' mod tv + 1"
    by (rule previewIndex_mod [OF tv rng])
  have sc': "currentIndex s' mod tv + 1 = (if currentIndex s' = tv then 1 else currentIndex s' + 1)"
    by (rule mod_succ_cases [OF tv rng])
  have src: "nextVideoSrc s' = previewSrc tv s"
    by (simp add: nextVideoSrc_def previewSrc_def ci)
  have bg: "backgroundSrc tv s' = (if currentIndex s' = tv - 1 then getVideoSrc 1 else previewSrc tv s)"
    by (simp add: backgroundSrc_def backgroundIndex_def previewSrc_def ci)
  have rest: "hasClicked s'" "loading s' = loading s" "loadedVideos s' = loadedVideos s"
    by (simp_all add: assms(3) handleMiniVdClick_def)
  from ci pv sc rng pv' sc' src bg rest show ?thesis by simp
qed

theorem advance_postcondition_witness:
  "1 \<le> currentIndex initial \<and> currentIndex initial \<le> totalVideos
   \<and> hasClicked (handleMiniVdClick totalVideos initial)
   \<and> currentIndex (handleMiniVdClick totalVideos initial) = 2
   \<and> previewIndex totalVideos initial = 2
   \<and> previewIndex totalVideos (handleMiniVdClick totalVideos initial) = 3
   \<and> nextVideoSrc (handleMiniVdClick totalVideos initial) = Inr ''videos/hero-2.mp4''
   \<and> previewSrc totalVideos initial = Inr ''videos/hero-2.mp4''"
proof -
  have a: "1 \<le> currentIndex initial" "currentIndex initial \<le> totalVideos"
    by (simp_all add: initial_def totalVideos_def)
  have b: "currentIndex initial = 1" "totalVideos = 4"
    by (simp_all add: initial_def totalVideos_def)
  have c: "getVideoSrc 2 = Inr ''videos/hero-2.mp4''"
    by (simp add: getVideoSrc_def ToString_def digits_of_nat.simps digit_char_def)
  from advance_postcondition [OF a refl] have
    "hasClicked (handleMiniVdClick totalVideos initial)"
    "currentIndex (handleMiniVdClick totalVideos initial) = previewIndex totalVideos initial"
    "currentIndex (handleMiniVdClick totalVideos initial) =
      (if currentIndex initial = totalVideos then 1 else currentIndex initial + 1)"
    "previewIndex totalVideos (handleMiniVdClick totalVideos initial) =
      (if currentIndex (handleMiniVdClick totalVideos initial) = totalVideos then 1
       else currentIndex (handleMiniVdClick totalVideos initial) + 1)"
    "nextVideoSrc (handleMiniVdClick totalVideos initial) = previewSrc totalVideos initial"
    by blast+
  with a b c show ?thesis by (simp add: nextVideoSrc_def)
qed

text \<open>
  Claim C2. For \<open>totalVideos \<ge> 2\<close>, in every state that a sequence of events reaches from
  a start with \<open>currentIndex\<close> in \<open>[1, totalVideos]\<close>, \<open>currentIndex\<close> is still in that range,
  the index of the preview is \<open>(currentIndex mod totalVideos) + 1\<close> (the \<^verbatim>\<open>%\<close> of the code
  agrees with the mathematical \<open>mod\<close> there), it lies in the range and differs from
  \<open>currentIndex\<close>, so the preview shows another clip than the video at \<open>currentIndex\<close>; and
  from \<open>currentIndex = totalVideos\<close> the preview is clip 1 and a click moves to 1.
\<close>

theorem preview_index_invariant:
  assumes "2 \<le> tv" and "1 \<le> currentIndex s" and "currentIndex s \<le> tv"
    and "s' = run tv s es"
  shows "1 \<le> currentIndex s' \<and> currentIndex s' \<le> tv
    \<and> previewIndex tv s' = currentIndex s' mod tv + 1
    \<and> 1 \<le> previewIndex tv s' \<and> previewIndex tv s' \<le> tv
    \<and> previewIndex tv s' \<noteq> currentIndex s'
    \<and> previewSrc tv s' \<noteq> nextVideoSrc s'
    \<and> (currentIndex s' = tv \<longrightarrow> previewIndex tv s' = 1 \<and> currentIndex (handleMiniVdClick tv s') = 1)"
proof -
  from assms have tv: "1 \<le> tv" by simp
  from run_currentIndex_range [OF tv assms(2,3), of es] assms(4)
  have rng: "1 \<le> currentIndex s'" "currentIndex s' \<le> tv" by simp_all
  have pv: "previewIndex tv s' = currentIndex s' mod tv + 1"
    by (rule previewIndex_mod [OF tv rng])
  have cases: "previewIndex tv s' = (if currentIndex s' = tv then 1 else currentIndex s' + 1)"
    unfolding pv by (rule mod_succ_cases [OF tv rng])
  from cases rng assms(1) have ne: "previewIndex tv s' \<noteq> currentIndex s'"
    by (simp split: if_splits)
  from cases rng have prng: "1 \<le> previewIndex tv s'" "previewIndex tv s' \<le> tv"
    by (simp_all split: if_splits)
  from ne have src: "previewSrc tv s' \<noteq> nextVideoSrc s'"
    unfolding previewSrc_def nextVideoSrc_def using getVideoSrc_inj by blast
  have wrap: "currentIndex s' = tv \<longrightarrow> previewIndex tv s' = 1 \<and> currentIndex (handleMiniVdClick tv s') = 1"
    using cases by (auto simp add: handleMiniVdClick_def previewIndex_def)
  from rng pv prng ne src wrap show ?thesis by blast
qed

theorem preview_index_invariant_witness:
  "2 \<le> totalVideos \<and> currentIndex initial = 1 \<and> currentIndex initial \<le> totalVideos
   \<and> currentIndex (run totalVideos initial [MiniVdClick, VideoLoaded, MiniVdClick, MiniVdClick]) = 4
   \<and> previewIndex totalVideos (run totalVideos initial [MiniVdClick, VideoLoaded, MiniVdClick, MiniVdClick]) = 1
   \<and> previewSrc totalVideos (run totalVideos initial [MiniVdClick, VideoLoaded, MiniVdClick, MiniVdClick])
       \<noteq> nextVideoSrc (run totalVideos initial [MiniVdClick, VideoLoaded, MiniVdClick, MiniVdClick])"
proof -
  have a: "2 \<le> totalVideos" by (simp add: totalVideos_def)
  have b: "1 \<le> currentIndex initial" "currentIndex initial \<le> totalVideos"
    by (simp_all add: initial_def totalVideos_def)
  have c: "currentIndex (run totalVideos initial [MiniVdClick, VideoLoaded, MiniVdClick, MiniVdClick]) = 4"
    by (simp add: totalVideos_def initial_def handleMiniVdClick_def handleVideoLoad_def
        loadingEffect_def js_rem_def)
  from preview_index_invariant [OF a b refl, of "[MiniVdClick, VideoLoaded, MiniVdClick, MiniVdClick]"] a b c
  show ?thesis by (simp add: totalVideos_def initial_def)
qed

lemma clicks_currentIndex:
  assumes "1 \<le> tv" and "1 \<le> currentIndex s" and "currentIndex s \<le> tv"
  shows "currentIndex ((handleMiniVdClick tv ^^ k) s) = (currentIndex s - 1 + int k) mod tv + 1"
proof (induction k)
  case 0
  from assms show ?case by (simp add: mod_pos_pos_trivial)
next
  case (Suc k)
  let ?t = "(handleMiniVdClick tv ^^ k) s"
  have "0 \<le> (currentIndex s - 1 + int k) mod tv" using assms(1) by simp
  with Suc.IH have nonneg: "0 \<le> currentIndex ?t" by simp
  have "currentIndex ((handleMiniVdClick tv ^^ Suc k) s) = js_rem (currentIndex ?t) tv + 1"
    by (simp add: handleMiniVdClick_def)
  also have "\<dots> = currentIndex ?t mod tv + 1"
    using nonneg assms(1) by (simp add: js_rem_nonneg)
  also have "\<dots> = ((currentIndex s - 1 + int k) mod tv + 1) mod tv + 1"
    by (simp only: Suc.IH)
  also have "\<dots> = (currentIndex s - 1 + int k + 1) mod tv + 1"
    by (simp only: mod_add_left_eq)
  also have "\<dots> = (currentIndex s - 1 + int (Suc k)) mod tv + 1"
    by (simp add: algebra_simps)
  finally show ?case .
qed

text \<open>
  Claim C4. For every \<open>totalVideos \<ge> 1\<close> and every start index in \<open>[1, totalVideos]\<close>,
  \<open>totalVideos\<close> calls of \<^verbatim>\<open>handleMiniVdClick\<close> bring \<open>currentIndex\<close> back to where it
  started. (The witness is the trajectory 1, 2, 3, 4, 1 of the four clips.)
\<close>

theorem cyclic_closure:
  assumes "1 \<le> tv" and "1 \<le> currentIndex s" and "currentIndex s \<le> tv"
  shows "currentIndex ((handleMiniVdClick tv ^^ nat tv) s) = currentIndex s"
proof -
  have "currentIndex ((handleMiniVdClick tv ^^ nat tv) s)
      = (currentIndex s - 1 + int (nat tv)) mod tv + 1"
    by (rule clicks_currentIndex [OF assms])
  also have "\<dots> = (currentIndex s - 1) mod tv + 1"
    using assms(1) by simp
  also have "\<dots> = currentIndex s"
    using assms by (simp add: mod_pos_pos_trivial)
  finally show ?thesis .
qed

theorem cyclic_closure_witness:
  "1 \<le> totalVideos \<and> currentIndex initial = 1 \<and> currentIndex initial \<le> totalVideos
   \<and> currentIndex ((handleMiniVdClick totalVideos ^^ 1) initial) = 2
   \<and> currentIndex ((handleMiniVdClick totalVideos ^^ 2) initial) = 3
   \<and> currentIndex ((handleMiniVdClick totalVideos ^^ 3) initial) = 4
   \<and> currentIndex ((handleMiniVdClick totalVideos ^^ nat totalVideos) initial) = 1"
proof -
  have a: "1 \<le> totalVideos" "1 \<le> currentIndex initial" "currentIndex initial \<le> totalVideos"
    by (simp_all add: initial_def totalVideos_def)
  have b: "currentIndex initial = 1" by (simp add: initial_def)
  have c: "currentIndex ((handleMiniVdClick totalVideos ^^ 1) initial) = 2"
    "currentIndex ((handleMiniVdClick totalVideos ^^ 2) initial) = 3"
    "currentIndex ((handleMiniVdClick totalVideos ^^ 3) initial) = 4"
    by (simp_all add: eval_nat_numeral totalVideos_def initial_def handleMiniVdClick_def js_rem_def)
  from cyclic_closure [OF a] a b c show ?thesis by simp
qed


subsection \<open>The rendered sources\<close>

text \<open>
  Claim C1 as stated (the background shows clip 1 when \<open>currentIndex = totalVideos\<close>) fails:
  after three clicks \<open>currentIndex\<close> is 4, the last clip, and the background video shows
  clip 4, not clip 1.
\<close>

theorem background_last_clip_counterexample:
  "currentIndex (run totalVideos (mount totalVideos) [MiniVdClick, MiniVdClick, MiniVdClick])
     = totalVideos
   \<and> backgroundSrc totalVideos
        (run totalVideos (mount totalVideos) [MiniVdClick, MiniVdClick, MiniVdClick])
     = Inr ''videos/hero-4.mp4''
   \<and> getVideoSrc 1 = Inr ''videos/hero-1.mp4''
   \<and> backgroundSrc totalVideos
        (run totalVideos (mount totalVideos) [MiniVdClick, MiniVdClick, MiniVdClick])
     \<noteq> getVideoSrc 1"
  by (simp add: totalVideos_def mount_def loadingEffect_def initial_def handleMiniVdClick_def
      js_rem_def backgroundSrc_def backgroundIndex_def getVideoSrc_def ToString_def
      digits_of_nat.simps digit_char_def)

text \<open>
  Claim C1, amended. In every state of every run (\<open>totalVideos \<ge> 1\<close>) the background video
  shows a clip of the range, and it is the clip at \<open>currentIndex\<close> except exactly at
  \<open>currentIndex = totalVideos - 1\<close>, the clip before the last, where it is clip 1 (the two
  coincide only for \<open>totalVideos = 2\<close>). At \<open>currentIndex = totalVideos\<close> it is the last
  clip itself.
\<close>

theorem background_special_case:
  assumes "1 \<le> tv" and "s = run tv (mount tv) es"
  shows "1 \<le> backgroundIndex tv s \<and> backgroundIndex tv s \<le> tv
    \<and> backgroundSrc tv s
        = (if currentIndex s = tv - 1 then getVideoSrc 1 else getVideoSrc (currentIndex s))
    \<and> (backgroundSrc tv s = getVideoSrc (currentIndex s))
        = (currentIndex s \<noteq> tv - 1 \<or> tv = 2)
    \<and> (currentIndex s = tv \<longrightarrow> backgroundSrc tv s = getVideoSrc tv)"
proof -
  have "1 \<le> currentIndex (run tv (mount tv) es) \<and> currentIndex (run tv (mount tv) es) \<le> tv"
    using assms(1) by (intro run_currentIndex_range) (simp_all add: mount_currentIndex)
  with assms(2) have rng: "1 \<le> currentIndex s" "currentIndex s \<le> tv" by simp_all
  from rng assms(1) have bi: "1 \<le> backgroundIndex tv s" "backgroundIndex tv s \<le> tv"
    by (simp_all add: backgroundIndex_def)
  have src: "backgroundSrc tv s
      = (if currentIndex s = tv - 1 then getVideoSrc 1 else getVideoSrc (currentIndex s))"
    by (simp add: backgroundSrc_def backgroundIndex_def)
  have same: "(backgroundSrc tv s = getVideoSrc (currentIndex s))
      = (currentIndex s \<noteq> tv - 1 \<or> tv = 2)"
  proof (cases "currentIndex s = tv - 1")
    case True
    then have "(getVideoSrc 1 = getVideoSrc (currentIndex s)) = (tv = 2)"
      using getVideoSrc_inj [of 1 "currentIndex s"] by auto
    with True src show ?thesis by simp
  next
    case False
    with src show ?thesis by simp
  qed
  have last: "currentIndex s = tv \<longrightarrow> backgroundSrc tv s = getVideoSrc tv"
    by (simp add: src)
  from bi src same last show ?thesis by blast
qed

theorem background_special_case_witness:
  "1 \<le> totalVideos
   \<and> currentIndex (run totalVideos (mount totalVideos) [MiniVdClick, MiniVdClick]) = totalVideos - 1
   \<and> backgroundSrc totalVideos (run totalVideos (mount totalVideos) [MiniVdClick, MiniVdClick])
       = Inr ''videos/hero-1.mp4''
   \<and> backgroundSrc totalVideos (run totalVideos (mount totalVideos) [MiniVdClick, MiniVdClick])
       \<noteq> getVideoSrc (currentIndex (run totalVideos (mount totalVideos) [MiniVdClick, MiniVdClick]))
   \<and> currentIndex (run totalVideos (mount totalVideos) [MiniVdClick, VideoLoaded, MiniVdClick, MiniVdClick])
       = totalVideos
   \<and> backgroundSrc totalVideos
        (run totalVideos (mount totalVideos) [MiniVdClick, VideoLoaded, MiniVdClick, MiniVdClick])
       = getVideoSrc totalVideos"
proof -
  have a: "1 \<le> totalVideos" "totalVideos \<noteq> 2" by (simp_all add: totalVideos_def)
  have b: "currentIndex (run totalVideos (mount totalVideos) [MiniVdClick, MiniVdClick])
      = totalVideos - 1"
    "currentIndex (run totalVideos (mount totalVideos)
        [MiniVdClick, VideoLoaded, MiniVdClick, MiniVdClick]) = totalVideos"
    by (simp_all add: totalVideos_def mount_def loadingEffect_def initial_def handleMiniVdClick_def
        handleVideoLoad_def js_rem_def)
  have c: "getVideoSrc 1 = Inr ''videos/hero-1.mp4''"
    "getVideoSrc (totalVideos - 1) = Inr ''videos/hero-3.mp4''"
    by (simp_all add: totalVideos_def getVideoSrc_def ToString_def digits_of_nat.simps
        digit_char_def)
  from background_special_case [OF a(1) refl, of "[MiniVdClick, MiniVdClick]"] b(1)
  have at3: "backgroundSrc totalVideos (run totalVideos (mount totalVideos) [MiniVdClick, MiniVdClick])
      = getVideoSrc 1"
    by simp
  from background_special_case [OF a(1) refl,
      of "[MiniVdClick, VideoLoaded, MiniVdClick, MiniVdClick]"] b(2)
  have at4: "backgroundSrc totalVideos
        (run totalVideos (mount totalVideos) [MiniVdClick, VideoLoaded, MiniVdClick, MiniVdClick])
      = getVideoSrc totalVideos"
    by simp
  from a b c at3 at4 show ?thesis by simp
qed

text \<open>
  Claim C7 as stated (an index outside \<open>[1, totalVideos]\<close> fails with an out-of-range
  condition) fails: index 5 is outside the range of the four clips and \<^verbatim>\<open>getVideoSrc\<close>
  returns a locator for it.
\<close>

theorem getVideoSrc_out_of_range_counterexample:
  "\<not> (1 \<le> (5::int) \<and> 5 \<le> totalVideos) \<and> getVideoSrc 5 = Inr ''videos/hero-5.mp4''
   \<and> getVideoSrc 5 \<noteq> Inl RangeError"
  by (simp add: totalVideos_def getVideoSrc_def ToString_def digits_of_nat.simps digit_char_def)

text \<open>
  Claim C7, amended. \<^verbatim>\<open>getVideoSrc\<close> is a function of the index alone and has no range
  check. For every index (an integer of the safe range) it returns the locator made of
  \<^verbatim>\<open>videos/hero-\<close>, the canonical decimal numeral of the index and \<^verbatim>\<open>.mp4\<close>: for an index
  in \<open>[1, totalVideos]\<close> that numeral is the digits of the index, and for an index outside
  the range the function does not fail either, it returns the locator formatted from that
  index in the same way. Different indices give different locators.
\<close>

theorem getVideoSrc_unchecked:
  assumes "abs index \<le> MAX_SAFE_INTEGER"
  shows "getVideoSrc index = Inr (''videos/hero-'' @ ToString index @ ''.mp4'')
    \<and> (\<forall>str. (read_int str = Some index) = (str = ToString index))
    \<and> (1 \<le> index \<and> index \<le> tv \<longrightarrow>
          getVideoSrc index = Inr (''videos/hero-'' @ digits_of_nat (nat index) @ ''.mp4'')
          \<and> read_nat (digits_of_nat (nat index)) = Some (nat index))
    \<and> (\<not> (1 \<le> index \<and> index \<le> tv) \<longrightarrow>
          getVideoSrc index = Inr (''videos/hero-'' @ ToString index @ ''.mp4'')
          \<and> (\<forall>e. getVideoSrc index \<noteq> Inl e))
    \<and> (getVideoSrc index = getVideoSrc index' \<longrightarrow> index = index')"
proof -
  have fmt: "getVideoSrc index = Inr (''videos/hero-'' @ ToString index @ ''.mp4'')"
    by (simp add: getVideoSrc_def)
  have canon: "\<forall>str. (read_int str = Some index) = (str = ToString index)"
    by (simp add: ToString_canonical)
  have inside: "1 \<le> index \<and> index \<le> tv \<longrightarrow>
      getVideoSrc index = Inr (''videos/hero-'' @ digits_of_nat (nat index) @ ''.mp4'')
      \<and> read_nat (digits_of_nat (nat index)) = Some (nat index)"
    by (simp add: getVideoSrc_def ToString_def read_nat_digits_of_nat)
  have outside: "\<not> (1 \<le> index \<and> index \<le> tv) \<longrightarrow>
      getVideoSrc index = Inr (''videos/hero-'' @ ToString index @ ''.mp4'')
      \<and> (\<forall>e. getVideoSrc index \<noteq> Inl e)"
    by (simp add: getVideoSrc_def)
  have inj: "getVideoSrc index = getVideoSrc index' \<longrightarrow> index = index'"
    using getVideoSrc_inj [of index index'] by blast
  from fmt canon inside outside inj show ?thesis by blast
qed

theorem getVideoSrc_unchecked_witness:
  "abs (3::int) \<le> MAX_SAFE_INTEGER \<and> (1 \<le> (3::int) \<and> 3 \<le> totalVideos)
   \<and> getVideoSrc 3 = Inr ''videos/hero-3.mp4''
   \<and> abs (- 7 :: int) \<le> MAX_SAFE_INTEGER \<and> \<not> (1 \<le> (- 7 :: int) \<and> - 7 \<le> totalVideos)
   \<and> getVideoSrc (- 7) = Inr ''videos/hero--7.mp4''
   \<and> read_int ''-7'' = Some (- 7)
   \<and> getVideoSrc (- 7) \<noteq> Inl RangeError
   \<and> getVideoSrc 3 \<noteq> getVideoSrc (- 7)"
proof -
  have a: "abs (3::int) \<le> MAX_SAFE_INTEGER" "abs (- 7 :: int) \<le> MAX_SAFE_INTEGER"
    by (simp_all add: MAX_SAFE_INTEGER_def)
  have b: "1 \<le> (3::int) \<and> 3 \<le> totalVideos" "\<not> (1 \<le> (- 7 :: int) \<and> - 7 \<le> totalVideos)"
    by (simp_all add: totalVideos_def)
  have d: "digits_of_nat (nat 3) = ''3''" "ToString (- 7) = ''-7''"
    by (simp_all add: ToString_def digits_of_nat.simps digit_char_def)
  note t3 = getVideoSrc_unchecked [OF a(1), of totalVideos "- 7"]
  note t7 = getVideoSrc_unchecked [OF a(2), of totalVideos 3]
  from t3 have "1 \<le> (3::int) \<and> 3 \<le> totalVideos \<longrightarrow>
      getVideoSrc 3 = Inr (''videos/hero-'' @ digits_of_nat (nat 3) @ ''.mp4'')
      \<and> read_nat (digits_of_nat (nat 3)) = Some (nat 3)"
    by (elim conjE)
  with b(1) have "getVideoSrc 3 = Inr (''videos/hero-'' @ digits_of_nat (nat 3) @ ''.mp4'')"
    by blast
  then have in3: "getVideoSrc 3 = Inr ''videos/hero-3.mp4''"
    by (simp only: d(1) append.simps)
  from t3 have "getVideoSrc 3 = getVideoSrc (- 7) \<longrightarrow> (3::int) = - 7"
    by (elim conjE)
  then have ne: "getVideoSrc 3 \<noteq> getVideoSrc (- 7)"
    by auto
  from t7 have "\<not> (1 \<le> (- 7 :: int) \<and> - 7 \<le> totalVideos) \<longrightarrow>
      getVideoSrc (- 7) = Inr (''videos/hero-'' @ ToString (- 7) @ ''.mp4'')
      \<and> (\<forall>e. getVideoSrc (- 7) \<noteq> Inl e)"
    by (elim conjE)
  with b(2) have o: "getVideoSrc (- 7) = Inr (''videos/hero-'' @ ToString (- 7) @ ''.mp4'')"
    "\<forall>e. getVideoSrc (- 7) \<noteq> Inl e"
    by blast+
  from o(1) have out7: "getVideoSrc (- 7) = Inr ''videos/hero--7.mp4''"
    by (simp only: d(2) append.simps)
  from o(2) have noerr: "getVideoSrc (- 7) \<noteq> Inl RangeError"
    by (rule spec)
  from t7 have "\<forall>str. (read_int str = Some (- 7)) = (str = ToString (- 7))"
    by (elim conjE)
  then have "(read_int ''-7'' = Some (- 7)) = (''-7'' = ToString (- 7))"
    by (rule spec)
  then have rd: "read_int ''-7'' = Some (- 7)"
    by (simp only: d(2) refl)
  from a b in3 out7 rd noerr ne show ?thesis by blast
qed



subsection \<open>The loading screen and the click flag\<close>

lemma step_loadedVideos:
  "loadedVideos (step tv s e) = loadedVideos s + (if e = VideoLoaded then 1 else 0)"
  by (cases e) (simp_all add: loadingEffect_def handleVideoLoad_def handleMiniVdClick_def)

lemma run_loadedVideos:
  "loadedVideos (run tv s es) = loadedVideos s + int (count_list es VideoLoaded)"
  by (induction es arbitrary: s) (simp_all add: step_loadedVideos)

lemma run_append: "run tv s (es @ es') = run tv (run tv s es) es'"
  by (induction es arbitrary: s) simp_all

text \<open>
  Running the loading effect again while \<^verbatim>\<open>loadedVideos\<close> is what it was at the previous
  run (and the flag is as that run left it) changes nothing: the model may run the effect
  at every re-render.
\<close>

lemma loadingEffect_rerun:
  assumes "loadedVideos t = loadedVideos s" and "loading t = loading (loadingEffect tv s)"
  shows "loadingEffect tv t = t"
  using assms by (cases t) (auto simp add: loadingEffect_def split: if_splits)

text \<open>
  What holds of the loading flag under every schedule of re-renders: with fewer than
  \<open>totalVideos - 1\<close> calls of \<^verbatim>\<open>handleVideoLoad\<close> it stays set; a re-render that finds
  exactly \<open>totalVideos - 1\<close> calls clears it; and once the counter has passed
  \<open>totalVideos - 1\<close> with the flag still set, the flag stays set for good.
\<close>

lemma loading_below_threshold:
  assumes "loading s" and "loadedVideos s + int (count_list es VideoLoaded) < tv - 1"
  shows "loading (run tv s es)"
  using assms
proof (induction es arbitrary: s)
  case Nil
  then show ?case by simp
next
  case (Cons e es)
  have "loading (step tv s e)"
    using Cons.prems
    by (cases e) (auto simp add: loadingEffect_def handleVideoLoad_def handleMiniVdClick_def)
  moreover have "loadedVideos (step tv s e) + int (count_list es VideoLoaded) < tv - 1"
    using Cons.prems(2) by (simp add: step_loadedVideos split: if_splits)
  ultimately show ?case using Cons.IH [of "step tv s e"] by simp
qed

lemma loading_cleared_at_threshold:
  assumes "loadedVideos s + int (count_list es VideoLoaded) = tv - 1"
  shows "\<not> loading (run tv s (es @ [Render]))"
proof -
  have "loadedVideos (run tv s es) = tv - 1"
    using assms by (simp add: run_loadedVideos)
  then show ?thesis by (simp add: run_append loadingEffect_def)
qed


text \<open>
  When every event is rendered before the next one is handled, the flag after \<open>n\<close> calls
  of \<^verbatim>\<open>handleVideoLoad\<close> is set exactly when \<open>n < totalVideos - 1\<close>.
\<close>

lemma rendered_loading_invariant:
  assumes "loading s = (loadedVideos s < tv - 1)"
  shows "loading (run tv s (concat (map (\<lambda>e. [e, Render]) es)))
    = (loadedVideos s + int (count_list es VideoLoaded) < tv - 1)"
  using assms
proof (induction es arbitrary: s)
  case Nil
  then show ?case by simp
next
  case (Cons e es)
  let ?t = "loadingEffect tv (step tv s e)"
  have inv: "loading ?t = (loadedVideos ?t < tv - 1)"
    using Cons.prems
    by (cases e) (auto simp add: loadingEffect_def handleVideoLoad_def handleMiniVdClick_def)
  have cnt: "loadedVideos ?t = loadedVideos s + (if e = VideoLoaded then 1 else 0)"
    by (cases e) (simp_all add: loadingEffect_def handleVideoLoad_def handleMiniVdClick_def)
  from Cons.IH [OF inv] cnt show ?case by (simp add: algebra_simps)
qed

lemma loading_threshold_rendered:
  assumes "1 \<le> tv" and "loadedVideos s = 0" and "loading s"
  shows "loading (run tv (loadingEffect tv s) (concat (map (\<lambda>e. [e, Render]) es)))
    = (int (count_list es VideoLoaded) < tv - 1)"
proof -
  let ?s0 = "loadingEffect tv s"
  from assms have inv: "loading ?s0 = (loadedVideos ?s0 < tv - 1)"
    by (auto simp add: loadingEffect_def)
  from assms(2) have cnt: "loadedVideos ?s0 = 0"
    by (simp add: loadingEffect_def)
  from rendered_loading_invariant [OF inv, of es] cnt show ?thesis by simp
qed


lemma step_loading_latch: "\<not> loading s \<Longrightarrow> \<not> loading (step tv s e)"
  by (cases e) (simp_all add: loadingEffect_def handleVideoLoad_def handleMiniVdClick_def)

text \<open>
  Claim C6. Once the loading flag is cleared (as it is when \<open>loadedVideos\<close> has reached
  \<open>totalVideos - 1\<close>), no sequence of clicks and \<^verbatim>\<open>loadeddata\<close> events sets it again: the
  loading screen stays hidden in every later state. (No handler or effect of the component
  calls \<^verbatim>\<open>setLoading(true)\<close>.)
\<close>

theorem loading_latch:
  assumes "\<not> loading s"
  shows "\<not> loading (run tv s es) \<and> \<not> loadingScreenShown (run tv s es)"
proof -
  from assms have "\<not> loading (run tv s es)"
  proof (induction es arbitrary: s)
    case Nil
    then show ?case by simp
  next
    case (Cons e es)
    from Cons.IH [OF step_loading_latch [OF Cons.prems]] show ?case by simp
  qed
  then show ?thesis by (simp add: loadingScreenShown_def)
qed

theorem loading_latch_witness:
  "loadedVideos (run totalVideos (mount totalVideos) [VideoLoaded, VideoLoaded, VideoLoaded, Render])
     = totalVideos - 1
   \<and> \<not> loading (run totalVideos (mount totalVideos) [VideoLoaded, VideoLoaded, VideoLoaded, Render])
   \<and> \<not> loading (run totalVideos
          (run totalVideos (mount totalVideos) [VideoLoaded, VideoLoaded, VideoLoaded, Render])
          [MiniVdClick, VideoLoaded, Render, VideoLoaded, MiniVdClick, VideoLoaded, Render])
   \<and> loadedVideos (run totalVideos
          (run totalVideos (mount totalVideos) [VideoLoaded, VideoLoaded, VideoLoaded, Render])
          [MiniVdClick, VideoLoaded, Render, VideoLoaded, MiniVdClick, VideoLoaded, Render]) = 6"
proof -
  have a: "\<not> loading (run totalVideos (mount totalVideos) [VideoLoaded, VideoLoaded, VideoLoaded, Render])"
    by (simp add: totalVideos_def mount_def initial_def loadingEffect_def handleVideoLoad_def)
  have b: "loadedVideos (run totalVideos (mount totalVideos) [VideoLoaded, VideoLoaded, VideoLoaded, Render])
      = totalVideos - 1"
    by (simp add: totalVideos_def mount_def initial_def loadingEffect_def handleVideoLoad_def
        handleMiniVdClick_def)
  have c: "loadedVideos (run totalVideos
          (run totalVideos (mount totalVideos) [VideoLoaded, VideoLoaded, VideoLoaded, Render])
          [MiniVdClick, VideoLoaded, Render, VideoLoaded, MiniVdClick, VideoLoaded, Render]) = 6"
    by (simp add: totalVideos_def mount_def initial_def loadingEffect_def handleVideoLoad_def
        handleMiniVdClick_def)
  from loading_latch [OF a, of totalVideos
      "[MiniVdClick, VideoLoaded, Render, VideoLoaded, MiniVdClick, VideoLoaded, Render]"] a b c
  show ?thesis by blast
qed

lemma step_hasClicked_latch: "hasClicked s \<Longrightarrow> hasClicked (step tv s e)"
  by (cases e) (simp_all add: loadingEffect_def handleVideoLoad_def handleMiniVdClick_def)

lemma run_hasClicked_latch: "hasClicked s \<Longrightarrow> hasClicked (run tv s es)"
proof (induction es arbitrary: s)
  case Nil
  then show ?case by simp
next
  case (Cons e es)
  from Cons.IH [OF step_hasClicked_latch [OF Cons.prems]] show ?case by simp
qed

text \<open>
  Claim C9. A call of \<^verbatim>\<open>handleMiniVdClick\<close> sets \<open>hasClicked\<close>, and once it is set it is
  set in every later state: any run that contains a click ends with \<open>hasClicked\<close> set, so
  the initial state (where it is unset) is never reached again. (No handler or effect of
  the component calls \<^verbatim>\<open>setHasClicked(false)\<close>.)
\<close>

theorem hasClicked_latch:
  "hasClicked (handleMiniVdClick tv s)
   \<and> (hasClicked s \<longrightarrow> hasClicked (run tv s es))
   \<and> (MiniVdClick \<in> set es \<longrightarrow> hasClicked (run tv s es) \<and> run tv s es \<noteq> initial)"
proof -
  have click: "hasClicked (handleMiniVdClick tv s)" for s
    by (simp add: handleMiniVdClick_def)
  have contains: "MiniVdClick \<in> set es \<Longrightarrow> hasClicked (run tv s es)" for s
  proof (induction es arbitrary: s)
    case Nil
    then show ?case by simp
  next
    case (Cons e es)
    show ?case
    proof (cases e)
      case VideoLoaded
      with Cons.prems have "MiniVdClick \<in> set es" by simp
      from Cons.IH [OF this] show ?thesis by simp
    next
      case Render
      with Cons.prems have "MiniVdClick \<in> set es" by simp
      from Cons.IH [OF this] show ?thesis by simp
    next
      case MiniVdClick
      with run_hasClicked_latch [OF click [of s], of tv es] show ?thesis by simp
    qed
  qed
  have "\<not> hasClicked initial" by (simp add: initial_def)
  with contains have "MiniVdClick \<in> set es \<Longrightarrow> run tv s es \<noteq> initial"
    by metis
  with click contains run_hasClicked_latch [of s tv es] show ?thesis by blast
qed

theorem hasClicked_latch_witness:
  "\<not> hasClicked (mount totalVideos)
   \<and> \<not> hasClicked (run totalVideos (mount totalVideos) [VideoLoaded, VideoLoaded])
   \<and> hasClicked (handleMiniVdClick totalVideos (mount totalVideos))
   \<and> MiniVdClick \<in> set [VideoLoaded, MiniVdClick, VideoLoaded, VideoLoaded, VideoLoaded]
   \<and> hasClicked (run totalVideos (mount totalVideos)
        [VideoLoaded, MiniVdClick, VideoLoaded, VideoLoaded, VideoLoaded])
   \<and> hasClicked (run totalVideos (handleMiniVdClick totalVideos (mount totalVideos))
        [VideoLoaded, VideoLoaded, VideoLoaded, VideoLoaded])"
proof -
  have a: "\<not> hasClicked (mount totalVideos)"
    "\<not> hasClicked (run totalVideos (mount totalVideos) [VideoLoaded, VideoLoaded])"
    by (simp_all add: totalVideos_def mount_def initial_def loadingEffect_def handleVideoLoad_def)
  have b: "MiniVdClick \<in> set [VideoLoaded, MiniVdClick, VideoLoaded, VideoLoaded, VideoLoaded]"
    by simp
  from hasClicked_latch [of totalVideos "mount totalVideos"
      "[VideoLoaded, MiniVdClick, VideoLoaded, VideoLoaded, VideoLoaded]"]
    hasClicked_latch [of totalVideos "handleMiniVdClick totalVideos (mount totalVideos)"
      "[VideoLoaded, VideoLoaded, VideoLoaded, VideoLoaded]"] a b
  show ?thesis by blast
qed

end
